theory Spec2Isabelle
  imports Main "HOL-Library.Multiset"
begin

section \<open>Error values\<close>

text \<open>
  Go's \<open>error\<close> is an interface with one method, \<open>Error() string\<close>. The values that
  \<open>hystrix.go\<close> builds itself come from \<open>errors.New\<close> and from \<open>fmt.Errorf\<close> with
  \<open>%v\<close> verbs only: both give a value that holds nothing but its message
  (\<open>ErrorString\<close>). The caller's \<open>run\<close> and \<open>fallback\<close> may return any error, also
  one that carries another error in a field and hands it out through \<open>Unwrap\<close>
  (\<open>WrapError\<close>).
\<close>

datatype error = ErrorString string | WrapError string error

fun Error :: "error \<Rightarrow> string" where
  "Error (ErrorString s) = s"
| "Error (WrapError s cause) = s"



definition errors_New :: "string \<Rightarrow> error" where
  "errors_New s = ErrorString s"

text \<open>
  \<open>fmt.Errorf("fallback failed with '%v'. run error was '%v'", fallbackErr, err)\<close>:
  \<open>%v\<close> prints an error by its \<open>Error()\<close> text, and without a \<open>%w\<close> verb the result
  is a plain message error.
\<close>

definition fmt_Errorf :: "error \<Rightarrow> error \<Rightarrow> error" where
  "fmt_Errorf fallbackErr err =
     errors_New (''fallback failed with '' @ [CHR 0x27] @ Error fallbackErr @ [CHR 0x27]
                 @ ''. run error was '' @ [CHR 0x27] @ Error err @ [CHR 0x27])"

section \<open>The caller's functions\<close>

text \<open>
  \<open>run\<close> and \<open>fallback\<close> are closures of the caller. A call of one of them returns a
  value, panics, or never returns. \<open>runFunc\<close> is \<open>func() error\<close>, called at most once
  in an attempt; \<open>fallbackFunc\<close> is \<open>func(error) error\<close>. A \<open>nil\<close> error is \<open>None\<close>,
  a \<open>nil\<close> fallback is \<open>None\<close>.
\<close>

datatype 'a call = Returns 'a | Panics | NeverReturns

type_synonym runFunc = "error option call"
type_synonym fallbackFunc = "error \<Rightarrow> error option call"

definition tryFallback :: "fallbackFunc option \<Rightarrow> error \<Rightarrow> error option call" where
  "tryFallback fallback err =
     (case fallback of
        None \<Rightarrow> Returns None
      | Some f \<Rightarrow>
          (case f err of
             Returns (Some fallbackErr) \<Rightarrow> Returns (Some (fmt_Errorf fallbackErr err))
           | Returns None \<Rightarrow> Returns None
           | Panics \<Rightarrow> Panics
           | NeverReturns \<Rightarrow> NeverReturns))"

section \<open>One attempt: the two goroutines of \<open>Go\<close>\<close>

text \<open>
  An executor token is what the channel \<open>executors\<close> carries. The registry functions
  \<open>GetExecutorsForCommand\<close> and \<open>timeoutForCommand\<close> are not part of \<open>hystrix.go\<close>:
  the first is a parameter of the model, giving for a command name whether the returned
  channel is non-nil (it is then the pool of the system below) and the returned error;
  the duration of the second is left open: the timer of line 70 may fire at any moment
  while the watcher waits in its \<open>select\<close>.
\<close>

type_synonym executor = nat
type_synonym registry = "string \<Rightarrow> bool \<times> error option"

text \<open>
  Where the first goroutine (lines 34 to 65) stands, by source line. A position that
  holds a token carries it. \<open>L43\<close> is the deferred \<open>executors <- executor\<close>, with the
  flag telling whether it runs because of a panic: a deferred call runs when the function
  of the goroutine returns, that is after line 64, or at once when a call panics.
\<close>

datatype worker_pc =
    L35
  | L37 bool error
  | L40 bool
  | L41
  | L45 executor
  | L48 executor error
  | L50 executor error
  | L53 executor error
  | L43 executor bool
  | L57 error
  | L59 error
  | L64 "executor option"
  | Returned
  | Crashed

text \<open>
  The second goroutine (lines 67 to 73): waiting in the \<open>select\<close>, before the send of
  line 71, returned through the case of line 69, or returned after the send of line 71.
\<close>

datatype watcher_pc = W68 | W71 | WFinished | WTimedOut

record attempt =
  name :: string
  run :: runFunc
  fallback :: "fallbackFunc option"
  errChan :: "error list"
  finished :: "bool list"
  worker :: worker_pc
  watcher :: watcher_pc
  run_calls :: nat
  fallback_calls :: "error list"
  received :: "error list"

text \<open>
  \<open>Go\<close> makes the two channels, each with a buffer of one value, starts the two
  goroutines and returns \<open>errChan\<close>. The last three fields are observations:
  how often \<open>run\<close> was called, the arguments \<open>fallback\<close> was called with, and the
  values the caller has taken from \<open>errChan\<close>.
\<close>

definition Go :: "string \<Rightarrow> runFunc \<Rightarrow> fallbackFunc option \<Rightarrow> attempt" where
  "Go n r f =
     \<lparr>name = n, run = r, fallback = f, errChan = [], finished = [],
      worker = L35, watcher = W68, run_calls = 0, fallback_calls = [], received = []\<rparr>"

definition worker_step ::
  "registry \<Rightarrow> nat \<Rightarrow> executor list \<Rightarrow> attempt \<Rightarrow> (executor list \<times> attempt) option" where
  "worker_step GetExecutorsForCommand cap pool a =
     (case worker a of
        L35 \<Rightarrow>
          (case GetExecutorsForCommand (name a) of
             (executors, Some err) \<Rightarrow> Some (pool, a\<lparr>worker := L37 executors err\<rparr>)
           | (executors, None) \<Rightarrow> Some (pool, a\<lparr>worker := L40 executors\<rparr>))
      | L37 executors err \<Rightarrow>
          (if length (errChan a) < 1
           then Some (pool, a\<lparr>errChan := errChan a @ [err], worker := L40 executors\<rparr>)
           else None)
      | L40 executors \<Rightarrow>
          (if executors then Some (pool, a\<lparr>worker := L41\<rparr>)
           else Some (pool, a\<lparr>worker := L64 None\<rparr>))
      | L41 \<Rightarrow>
          (case pool of
             executor # rest \<Rightarrow>
               Some (rest, a\<lparr>worker := L45 executor, run_calls := Suc (run_calls a)\<rparr>)
           | [] \<Rightarrow>
               Some (pool,
                 a\<lparr>worker := L57 (errors_New ''unable to grab executor''),
                   fallback_calls := fallback_calls a @
                     (case fallback a of
                        None \<Rightarrow> []
                      | Some f \<Rightarrow> [errors_New ''unable to grab executor''])\<rparr>))
      | L45 executor \<Rightarrow>
          (case run a of
             Returns (Some runErr) \<Rightarrow>
               (case fallback a of
                  Some f \<Rightarrow>
                    Some (pool, a\<lparr>worker := L48 executor runErr,
                                  fallback_calls := fallback_calls a @ [runErr]\<rparr>)
                | None \<Rightarrow> Some (pool, a\<lparr>worker := L53 executor runErr\<rparr>))
           | Returns None \<Rightarrow> Some (pool, a\<lparr>worker := L64 (Some executor)\<rparr>)
           | Panics \<Rightarrow> Some (pool, a\<lparr>worker := L43 executor True\<rparr>)
           | NeverReturns \<Rightarrow> None)
      | L48 executor runErr \<Rightarrow>
          (case tryFallback (fallback a) runErr of
             Returns (Some err) \<Rightarrow> Some (pool, a\<lparr>worker := L50 executor err\<rparr>)
           | Returns None \<Rightarrow> Some (pool, a\<lparr>worker := L64 (Some executor)\<rparr>)
           | Panics \<Rightarrow> Some (pool, a\<lparr>worker := L43 executor True\<rparr>)
           | NeverReturns \<Rightarrow> None)
      | L50 executor err \<Rightarrow>
          (if length (errChan a) < 1
           then Some (pool, a\<lparr>errChan := errChan a @ [err], worker := L64 (Some executor)\<rparr>)
           else None)
      | L53 executor runErr \<Rightarrow>
          (if length (errChan a) < 1
           then Some (pool, a\<lparr>errChan := errChan a @ [runErr],
                              worker := L64 (Some executor)\<rparr>)
           else None)
      | L43 executor panicking \<Rightarrow>
          (if length pool < cap
           then Some (pool @ [executor],
                      a\<lparr>worker := (if panicking then Crashed else Returned)\<rparr>)
           else None)
      | L57 rejected \<Rightarrow>
          (case tryFallback (fallback a) rejected of
             Returns (Some err) \<Rightarrow> Some (pool, a\<lparr>worker := L59 err\<rparr>)
           | Returns None \<Rightarrow> Some (pool, a\<lparr>worker := L64 None\<rparr>)
           | Panics \<Rightarrow> Some (pool, a\<lparr>worker := Crashed\<rparr>)
           | NeverReturns \<Rightarrow> None)
      | L59 err \<Rightarrow>
          (if length (errChan a) < 1
           then Some (pool, a\<lparr>errChan := errChan a @ [err], worker := L64 None\<rparr>)
           else None)
      | L64 held \<Rightarrow>
          (if length (finished a) < 1
           then Some (pool,
                  a\<lparr>finished := finished a @ [True],
                    worker := (case held of
                                 Some executor \<Rightarrow> L43 executor False
                               | None \<Rightarrow> Returned)\<rparr>)
           else None)
      | Returned \<Rightarrow> None
      | Crashed \<Rightarrow> None)"

text \<open>
  The watcher's \<open>select\<close> has two cases: a value on \<open>finished\<close>, or the timer. Having
  taken the timer case it sends \<open>errors.New("timeout")\<close> on \<open>errChan\<close>.
\<close>

definition watcher_finished :: "attempt \<Rightarrow> attempt option" where
  "watcher_finished a =
     (case (watcher a, finished a) of
        (W68, v # rest) \<Rightarrow> Some (a\<lparr>finished := rest, watcher := WFinished\<rparr>)
      | _ \<Rightarrow> None)"

definition watcher_timeout :: "attempt \<Rightarrow> attempt option" where
  "watcher_timeout a =
     (case watcher a of W68 \<Rightarrow> Some (a\<lparr>watcher := W71\<rparr>) | _ \<Rightarrow> None)"

definition watcher_send :: "attempt \<Rightarrow> attempt option" where
  "watcher_send a =
     (case watcher a of
        W71 \<Rightarrow>
          (if length (errChan a) < 1
           then Some (a\<lparr>errChan := errChan a @ [errors_New ''timeout''],
                        watcher := WTimedOut\<rparr>)
           else None)
      | _ \<Rightarrow> None)"

text \<open>The caller of \<open>Go\<close> takes a value from the channel it was given.\<close>

definition caller_recv :: "attempt \<Rightarrow> attempt option" where
  "caller_recv a =
     (case errChan a of
        [] \<Rightarrow> None
      | v # rest \<Rightarrow> Some (a\<lparr>errChan := rest, received := received a @ [v]\<rparr>))"

text \<open>Every value written to \<open>errChan\<close> so far, in the order of the writes.\<close>

definition outcomes :: "attempt \<Rightarrow> error list" where
  "outcomes a = received a @ errChan a"

text \<open>
  \<open>channel_saw ws a\<close>: the worker has written the values \<open>ws\<close> to \<open>errChan\<close> and
  nothing else was written, except for the timeout error when the watcher has sent it,
  before or after \<open>ws\<close>.
\<close>

definition channel_saw :: "error list \<Rightarrow> attempt \<Rightarrow> bool" where
  "channel_saw ws a =
     (if watcher a = WTimedOut
      then outcomes a = errors_New ''timeout'' # ws \<or> outcomes a = ws @ [errors_New ''timeout'']
      else outcomes a = ws)"

section \<open>The system: one pool, many attempts\<close>

datatype action = Worker | WatcherFinished | WatcherTimeout | WatcherSend | CallerRecv

definition att_step ::
  "registry \<Rightarrow> nat \<Rightarrow> action \<Rightarrow> executor list \<Rightarrow> attempt \<Rightarrow> (executor list \<times> attempt) option"
  where
  "att_step reg cap act pool a =
     (case act of
        Worker \<Rightarrow> worker_step reg cap pool a
      | WatcherFinished \<Rightarrow> map_option (Pair pool) (watcher_finished a)
      | WatcherTimeout \<Rightarrow> map_option (Pair pool) (watcher_timeout a)
      | WatcherSend \<Rightarrow> map_option (Pair pool) (watcher_send a)
      | CallerRecv \<Rightarrow> map_option (Pair pool) (caller_recv a))"

text \<open>
  The pool is the buffered channel \<open>executors\<close> with its capacity, shared by the
  attempts. A panic that no goroutine recovers ends the whole program: once a worker
  has crashed, nothing moves any more.
\<close>

record system =
  executors :: "executor list"
  capacity :: nat
  attempts :: "attempt list"

definition crashed :: "system \<Rightarrow> bool" where
  "crashed s = list_ex (\<lambda>a. worker a = Crashed) (attempts s)"

definition sys_step :: "registry \<Rightarrow> nat \<times> action \<Rightarrow> system \<Rightarrow> system option" where
  "sys_step reg x s =
     (case x of
        (i, act) \<Rightarrow>
          (if i < length (attempts s) \<and> \<not> crashed s
           then (case att_step reg (capacity s) act (executors s) (attempts s ! i) of
                   None \<Rightarrow> None
                 | Some (pool, a) \<Rightarrow>
                     Some (s\<lparr>executors := pool, attempts := (attempts s)[i := a]\<rparr>))
           else None))"

fun exec :: "registry \<Rightarrow> (nat \<times> action) list \<Rightarrow> system \<Rightarrow> system option" where
  "exec reg [] s = Some s"
| "exec reg (x # xs) s =
     (case sys_step reg x s of None \<Rightarrow> None | Some s' \<Rightarrow> exec reg xs s')"

text \<open>
  The system at the start: a pool with its tokens, and one fresh attempt for each call
  \<open>Go(name, run, fallback)\<close>.
\<close>

definition start ::
  "executor list \<Rightarrow> nat \<Rightarrow> (string \<times> runFunc \<times> fallbackFunc option) list \<Rightarrow> system" where
  "start pool cap calls =
     \<lparr>executors = pool, capacity = cap, attempts = map (\<lambda>(n, r, f). Go n r f) calls\<rparr>"



section \<open>Invariants of an attempt\<close>

text \<open>
  The channel \<open>finished\<close> holds a value only after the worker has passed line 64, and
  then exactly the one it sent, unless the watcher has taken it.
\<close>

definition past_L64 :: "worker_pc \<Rightarrow> bool" where
  "past_L64 pc = (case pc of Returned \<Rightarrow> True | L43 t p \<Rightarrow> \<not> p | _ \<Rightarrow> False)"

definition finished_inv :: "attempt \<Rightarrow> bool" where
  "finished_inv a \<longleftrightarrow>
     (if past_L64 (worker a)
      then (finished a = [True] \<and> watcher a \<noteq> WFinished) \<or>
           (finished a = [] \<and> watcher a = WFinished)
      else finished a = [] \<and> watcher a \<noteq> WFinished)"




text \<open>
  When resolution gives an error and no pool (\<open>config_inv\<close>): the worker goes from
  line 35 to 37, 40 and 64, holds no token, calls neither \<open>run\<close> nor \<open>fallback\<close>, and
  has written nothing before line 37 and the resolution error after it.
\<close>

definition config_inv :: "string \<Rightarrow> error \<Rightarrow> attempt \<Rightarrow> bool" where
  "config_inv n e a \<longleftrightarrow>
     name a = n \<and> run_calls a = 0 \<and> fallback_calls a = [] \<and>
     (case worker a of
        L35 \<Rightarrow> channel_saw [] a
      | L37 ex err \<Rightarrow> \<not> ex \<and> err = e \<and> channel_saw [] a
      | L40 ex \<Rightarrow> \<not> ex \<and> channel_saw [e] a
      | L64 held \<Rightarrow> held = None \<and> channel_saw [e] a
      | Returned \<Rightarrow> channel_saw [e] a
      | _ \<Rightarrow> False)"




section \<open>Inputs of the examples\<close>

text \<open>
  A registry that resolves every name to the pool, a fallback that recovers, and the
  other registries and functions the examples below run the model on.
\<close>

definition registry_ok :: registry where
  "registry_ok n = (True, None)"

definition registry_error :: registry where
  "registry_error n = (False, Some (ErrorString ''no such command''))"

definition registry_error_with_pool :: registry where
  "registry_error_with_pool n = (True, Some (ErrorString ''no such command''))"

definition fallback_ok :: fallbackFunc where
  "fallback_ok e = Returns None"

definition fallback_fails :: fallbackFunc where
  "fallback_fails e = Returns (Some (ErrorString ''cache down''))"

section \<open>Steps and traces\<close>

lemmas step_defs = sys_step_def att_step_def worker_step_def watcher_finished_def
  watcher_timeout_def watcher_send_def caller_recv_def crashed_def start_def Go_def
  tryFallback_def errors_New_def fmt_Errorf_def outcomes_def registry_ok_def registry_error_def
  registry_error_with_pool_def fallback_ok_def fallback_fails_def

lemma start_attempt:
  "i < length calls \<Longrightarrow> calls ! i = (n, r, f) \<Longrightarrow>
   attempts (start pool cap calls) ! i = Go n r f"
  by (simp add: start_def)

lemma start_length: "length (attempts (start pool cap calls)) = length calls"
  by (simp add: start_def)


lemma sys_step_SomeD:
  assumes "sys_step reg (i, act) s = Some s'"
  shows "i < length (attempts s) \<and> \<not> crashed s \<and>
         (\<exists>pool a. att_step reg (capacity s) act (executors s) (attempts s ! i) = Some (pool, a)
                  \<and> s' = s\<lparr>executors := pool, attempts := (attempts s)[i := a]\<rparr>)"
  using assms by (auto simp: sys_step_def split: if_splits option.splits)

lemma exec_attempt_inv:
  assumes "exec reg tr s = Some s'" and "i < length (attempts s)" and "P (attempts s ! i)"
    and step: "\<And>act cap pool a pool' a'.
           P a \<Longrightarrow> ok act \<Longrightarrow> att_step reg cap act pool a = Some (pool', a') \<Longrightarrow> P a'"
    and acts: "\<forall>x\<in>set tr. fst x = i \<longrightarrow> ok (snd x)"
  shows "i < length (attempts s') \<and> P (attempts s' ! i)"
  using assms(1,2,3) acts
proof (induction tr arbitrary: s)
  case Nil
  then show ?case by simp
next
  case (Cons x tr)
  obtain j act where x: "x = (j, act)" by (cases x)
  from Cons.prems(1) obtain t where t: "sys_step reg (j, act) s = Some t" and rest: "exec reg tr t = Some s'"
    by (auto simp: x split: option.splits)
  from sys_step_SomeD[OF t] obtain pool a where
    j: "j < length (attempts s)" and
    a: "att_step reg (capacity s) act (executors s) (attempts s ! j) = Some (pool, a)" and
    t': "t = s\<lparr>executors := pool, attempts := (attempts s)[j := a]\<rparr>"
    by blast
  have len: "i < length (attempts t)" using Cons.prems(2) by (simp add: t')
  have "P (attempts t ! i)"
  proof (cases "j = i")
    case True
    then have "ok act" using Cons.prems(4) by (simp add: x)
    from step[OF Cons.prems(3) this] a True show ?thesis
      using Cons.prems(2) by (simp add: t')
  next
    case False
    then show ?thesis using Cons.prems(3) by (simp add: t')
  qed
  from Cons.IH[OF rest len this] Cons.prems(4) show ?case by simp
qed






lemma exec_start_inv:
  assumes "exec reg tr (start pool cap calls) = Some s"
    and "i < length calls" and "calls ! i = (n, r, f)" and "P (Go n r f)"
    and step: "\<And>act cap pool a pool' a'.
           P a \<Longrightarrow> ok act \<Longrightarrow> att_step reg cap act pool a = Some (pool', a') \<Longrightarrow> P a'"
    and acts: "\<forall>x\<in>set tr. fst x = i \<longrightarrow> ok (snd x)"
  shows "i < length (attempts s) \<and> P (attempts s ! i)"
proof (rule exec_attempt_inv[where P = P and ok = ok, OF assms(1)])
  show "i < length (attempts (start pool cap calls))"
    using assms(2) by (simp add: start_length)
  show "P (attempts (start pool cap calls) ! i)"
    using assms(2,3,4) by (simp add: start_attempt)
  show "\<And>act cap pool a pool' a'.
           P a \<Longrightarrow> ok act \<Longrightarrow> att_step reg cap act pool a = Some (pool', a') \<Longrightarrow> P a'"
    by (rule step)
  show "\<forall>x\<in>set tr. fst x = i \<longrightarrow> ok (snd x)" by (rule acts)
qed

lemma watcher_finished_SomeD:
  "watcher_finished a = Some a' \<Longrightarrow>
   watcher a = W68 \<and> finished a \<noteq> [] \<and> a' = a\<lparr>finished := tl (finished a), watcher := WFinished\<rparr>"
  by (auto simp: watcher_finished_def split: watcher_pc.splits list.splits)

lemma watcher_timeout_SomeD:
  "watcher_timeout a = Some a' \<Longrightarrow> watcher a = W68 \<and> a' = a\<lparr>watcher := W71\<rparr>"
  by (auto simp: watcher_timeout_def split: watcher_pc.splits)

lemma watcher_send_SomeD:
  "watcher_send a = Some a' \<Longrightarrow>
   watcher a = W71 \<and> errChan a = [] \<and>
   a' = a\<lparr>errChan := [errors_New ''timeout''], watcher := WTimedOut\<rparr>"
  by (auto simp: watcher_send_def split: watcher_pc.splits if_splits)

lemma caller_recv_SomeD:
  "caller_recv a = Some a' \<Longrightarrow>
   errChan a \<noteq> [] \<and>
   a' = a\<lparr>errChan := tl (errChan a), received := received a @ [hd (errChan a)]\<rparr>"
  by (auto simp: caller_recv_def split: list.splits)

lemma outcomes_caller_recv:
  "errChan a \<noteq> [] \<Longrightarrow>
   outcomes (a\<lparr>errChan := tl (errChan a), received := received a @ [hd (errChan a)]\<rparr>) = outcomes a"
  by (cases "errChan a") (auto simp: outcomes_def)

lemma att_step_cases:
  assumes "att_step reg cap act pool a = Some (pool', a')"
  obtains (Worker) "act = Worker" "worker_step reg cap pool a = Some (pool', a')"
    | (WatcherFinished) "act = WatcherFinished" "pool' = pool" "watcher a = W68" "finished a \<noteq> []"
        "a' = a\<lparr>finished := tl (finished a), watcher := WFinished\<rparr>"
    | (WatcherTimeout) "act = WatcherTimeout" "pool' = pool" "watcher a = W68"
        "a' = a\<lparr>watcher := W71\<rparr>"
    | (WatcherSend) "act = WatcherSend" "pool' = pool" "watcher a = W71" "errChan a = []"
        "a' = a\<lparr>errChan := [errors_New ''timeout''], watcher := WTimedOut\<rparr>"
    | (CallerRecv) "act = CallerRecv" "pool' = pool" "errChan a \<noteq> []"
        "a' = a\<lparr>errChan := tl (errChan a), received := received a @ [hd (errChan a)]\<rparr>"
  using assms
  by (cases act)
     (auto simp: att_step_def dest: watcher_finished_SomeD watcher_timeout_SomeD
        watcher_send_SomeD caller_recv_SomeD)

section \<open>The invariants hold\<close>

lemma finished_inv_Go: "finished_inv (Go n r f)"
  by (simp add: finished_inv_def past_L64_def Go_def)

lemma finished_inv_worker:
  assumes "finished_inv a" and "worker_step reg cap pool a = Some (pool', a')"
  shows "finished_inv a'"
proof (cases "worker a")
  case L35
  with assms show ?thesis
    by (cases "reg (name a)")
       (auto simp: worker_step_def finished_inv_def past_L64_def split: option.splits)
next
  case (L41)
  with assms show ?thesis
    by (auto simp: worker_step_def finished_inv_def past_L64_def split: list.splits)
next
  case (L45 t)
  with assms show ?thesis
    by (auto simp: worker_step_def finished_inv_def past_L64_def
          split: call.splits option.splits)
next
  case (L48 t e)
  with assms show ?thesis
    by (auto simp: worker_step_def finished_inv_def past_L64_def
          split: call.splits option.splits)
next
  case (L57 e)
  with assms show ?thesis
    by (auto simp: worker_step_def finished_inv_def past_L64_def
          split: call.splits option.splits)
next
  case (L64 held)
  with assms show ?thesis
    by (cases held) (auto simp: worker_step_def finished_inv_def past_L64_def split: if_splits)
qed (use assms in \<open>auto simp: worker_step_def finished_inv_def past_L64_def split: if_splits\<close>)

lemma finished_inv_step:
  assumes "finished_inv a" and "att_step reg cap act pool a = Some (pool', a')"
  shows "finished_inv a'"
  using assms(2)
proof (cases rule: att_step_cases)
  case Worker
  with assms(1) show ?thesis by (auto dest: finished_inv_worker)
next
  case WatcherFinished
  with assms(1) show ?thesis by (auto simp: finished_inv_def split: if_splits)
next
  case WatcherTimeout
  with assms(1) show ?thesis by (auto simp: finished_inv_def split: if_splits)
next
  case WatcherSend
  with assms(1) show ?thesis by (auto simp: finished_inv_def split: if_splits)
next
  case CallerRecv
  with assms(1) show ?thesis by (auto simp: finished_inv_def split: if_splits)
qed






lemma channel_saw_watcher_finished:
  "channel_saw ws a \<Longrightarrow> watcher a = W68 \<Longrightarrow>
   channel_saw ws (a\<lparr>finished := fs, watcher := WFinished\<rparr>)"
  by (simp add: channel_saw_def outcomes_def)

lemma channel_saw_watcher_timeout:
  "channel_saw ws a \<Longrightarrow> watcher a = W68 \<Longrightarrow> channel_saw ws (a\<lparr>watcher := W71\<rparr>)"
  by (simp add: channel_saw_def outcomes_def)

lemma channel_saw_watcher_send:
  "channel_saw ws a \<Longrightarrow> watcher a = W71 \<Longrightarrow> errChan a = [] \<Longrightarrow>
   channel_saw ws (a\<lparr>errChan := [errors_New ''timeout''], watcher := WTimedOut\<rparr>)"
  by (simp add: channel_saw_def outcomes_def)

lemma channel_saw_caller_recv:
  "channel_saw ws a \<Longrightarrow> errChan a \<noteq> [] \<Longrightarrow>
   channel_saw ws (a\<lparr>errChan := tl (errChan a), received := received a @ [hd (errChan a)]\<rparr>)"
  using outcomes_caller_recv[of a] by (simp add: channel_saw_def)

lemma channel_saw_step:
  assumes "channel_saw ws a" and "att_step reg cap act pool a = Some (pool', a')"
    and "act \<noteq> Worker"
  shows "channel_saw ws a'"
  using assms(2)
proof (cases rule: att_step_cases)
  case Worker
  with assms(3) show ?thesis by simp
next
  case WatcherFinished
  with assms(1) show ?thesis by (simp add: channel_saw_watcher_finished)
next
  case WatcherTimeout
  with assms(1) show ?thesis by (simp add: channel_saw_watcher_timeout)
next
  case WatcherSend
  with assms(1) show ?thesis by (simp add: channel_saw_watcher_send)
next
  case CallerRecv
  with assms(1) show ?thesis by (simp add: channel_saw_caller_recv)
qed

lemma att_step_frame:
  assumes "att_step reg cap act pool a = Some (pool', a')" and "act \<noteq> Worker"
  shows "name a' = name a \<and> run a' = run a \<and> fallback a' = fallback a \<and> worker a' = worker a
    \<and> run_calls a' = run_calls a \<and> fallback_calls a' = fallback_calls a"
  using assms by (cases rule: att_step_cases) auto

lemma channel_saw_send:
  "channel_saw [] a \<Longrightarrow> errChan a = [] \<Longrightarrow>
   channel_saw [x] (a\<lparr>errChan := [x], worker := pc\<rparr>)"
  by (auto simp: channel_saw_def outcomes_def split: if_splits)

lemma channel_saw_worker:
  "channel_saw ws a \<Longrightarrow> channel_saw ws (a\<lparr>worker := pc\<rparr>)"
  "channel_saw ws a \<Longrightarrow> channel_saw ws (a\<lparr>worker := pc, run_calls := k\<rparr>)"
  "channel_saw ws a \<Longrightarrow> channel_saw ws (a\<lparr>worker := pc, fallback_calls := fc\<rparr>)"
  "channel_saw ws a \<Longrightarrow> channel_saw ws (a\<lparr>finished := fs, worker := pc\<rparr>)"
  by (auto simp: channel_saw_def outcomes_def split: if_splits)

lemma config_inv_Go: "config_inv n e (Go n r fb)"
  by (simp add: config_inv_def Go_def channel_saw_def outcomes_def)

lemma config_inv_worker:
  assumes "config_inv n e a" and "reg n = (False, Some e)"
    and "worker_step reg cap pool a = Some (pool', a')"
  shows "config_inv n e a'"
  using assms
  by (cases "worker a")
     (auto simp: worker_step_def config_inv_def channel_saw_worker channel_saw_send
        split: if_splits)

lemma config_inv_frame:
  assumes "config_inv n e a"
    and "name a' = name a \<and> run a' = run a \<and> fallback a' = fallback a \<and> worker a' = worker a
      \<and> run_calls a' = run_calls a \<and> fallback_calls a' = fallback_calls a"
    and "\<And>ws. channel_saw ws a \<Longrightarrow> channel_saw ws a'"
  shows "config_inv n e a'"
  using assms by (cases "worker a") (auto simp: config_inv_def)

lemma config_inv_step:
  assumes "config_inv n e a" and "reg n = (False, Some e)"
    and "att_step reg cap act pool a = Some (pool', a')"
  shows "config_inv n e a'"
proof (cases "act = Worker")
  case True
  with assms show ?thesis by (auto simp: att_step_def dest: config_inv_worker)
next
  case False
  show ?thesis
    by (rule config_inv_frame[OF assms(1) att_step_frame[OF assms(3) False]])
       (rule channel_saw_step[OF _ assms(3) False])
qed

lemma config_inv_exec:
  assumes "exec reg tr (start pool cap calls) = Some s"
    and "i < length calls" and "calls ! i = (n, r, fb)"
    and "reg n = (False, Some e)"
  shows "config_inv n e (attempts s ! i)"
proof -
  have "i < length (attempts s) \<and> config_inv n e (attempts s ! i)"
  proof (rule exec_start_inv[where ok = "\<lambda>act. True", OF assms(1,2,3)])
    show "config_inv n e (Go n r fb)" by (rule config_inv_Go)
    show "\<forall>x\<in>set tr. fst x = i \<longrightarrow> True" by simp
    fix act cap pool a pool' a'
    assume "config_inv n e a" "att_step reg cap act pool a = Some (pool', a')"
    then show "config_inv n e a'" using config_inv_step assms(4) by blast
  qed
  then show ?thesis by simp
qed








section \<open>Invariants along a trace\<close>


lemma exec_length: "exec reg tr s = Some s' \<Longrightarrow> length (attempts s') = length (attempts s)"
proof (induction tr arbitrary: s)
  case Nil
  then show ?case by simp
next
  case (Cons x tr)
  obtain j act where x: "x = (j, act)" by (cases x)
  from Cons.prems obtain t where t: "sys_step reg (j, act) s = Some t"
    and rest: "exec reg tr t = Some s'"
    by (auto simp: x split: option.splits)
  from sys_step_SomeD[OF t] have "length (attempts t) = length (attempts s)" by auto
  with Cons.IH[OF rest] show ?case by simp
qed


lemma exec_start_all:
  assumes "exec reg tr (start pool cap calls) = Some s" and "i < length (attempts s)"
    and init: "\<And>n r f. P (Go n r f)"
    and step: "\<And>act cap pool a pool' a'.
           P a \<Longrightarrow> att_step reg cap act pool a = Some (pool', a') \<Longrightarrow> P a'"
  shows "P (attempts s ! i)"
proof -
  have i: "i < length calls"
    using exec_length[OF assms(1)] assms(2) by (simp add: start_length)
  obtain n r f where c: "calls ! i = (n, r, f)" by (cases "calls ! i")
  have "i < length (attempts s) \<and> P (attempts s ! i)"
  proof (rule exec_start_inv[where ok = "\<lambda>act. True", OF assms(1) i c])
    show "P (Go n r f)" by (rule init)
    show "\<forall>x\<in>set tr. fst x = i \<longrightarrow> True" by simp
    show "\<And>act cap pool a pool' a'.
           P a \<Longrightarrow> True \<Longrightarrow> att_step reg cap act pool a = Some (pool', a') \<Longrightarrow> P a'"
      by (rule step)
  qed
  then show ?thesis by simp
qed

lemma finished_inv_exec:
  "exec reg tr (start pool cap calls) = Some s \<Longrightarrow> i < length (attempts s) \<Longrightarrow>
   finished_inv (attempts s ! i)"
  by (rule exec_start_all[where P = finished_inv]) (auto intro: finished_inv_Go finished_inv_step)



lemma sys_step_attempt:
  assumes "i < length (attempts s)" and "\<not> crashed s"
    and "att_step reg (capacity s) act (executors s) (attempts s ! i) = Some (pool, a)"
  shows "sys_step reg (i, act) s = Some (s\<lparr>executors := pool, attempts := (attempts s)[i := a]\<rparr>)"
  using assms by (simp add: sys_step_def)


section \<open>The claims\<close>

text \<open>
  In what follows a state \<open>s\<close> is reached from \<open>start pool cap calls\<close> by a trace
  \<open>tr\<close> of steps \<open>(i, act)\<close>: attempt \<open>i\<close> makes the step \<open>act\<close>. Real time is
  not part of the model: "the timeout elapsed first" is the step \<open>WatcherTimeout\<close>,
  which the watcher may take at any moment while it waits.
\<close>

subsection \<open>C1: one outcome, and no writer blocked on a second write\<close>

text \<open>
  C1 says that every call of \<open>Go\<close> lets the caller observe exactly one outcome, and
  that neither the worker nor the watcher blocks forever on a second write while the
  first value is still in the buffer. The code does not do this. Run on a command whose
  \<open>run\<close> returns an error after the timer has fired: the watcher has put the timeout
  error into \<open>errChan\<close>, the worker reaches line 53 with its token in hand and cannot
  move (no step of the worker is possible) until the caller takes a value; and when the
  caller does take it, the run error is written too, so that a caller who receives again
  gets a second outcome.
\<close>

theorem C1_two_writes:
  "exec registry_ok
     [(0, WatcherTimeout), (0, WatcherSend), (0, Worker), (0, Worker), (0, Worker), (0, Worker)]
     (start [7] 1 [(''X'', Returns (Some (ErrorString ''boom'')), None)])
   = Some \<lparr>executors = [], capacity = 1,
       attempts = [(Go ''X'' (Returns (Some (ErrorString ''boom''))) None)
         \<lparr>errChan := [ErrorString ''timeout''], worker := L53 7 (ErrorString ''boom''),
          watcher := WTimedOut, run_calls := 1\<rparr>]\<rparr>
   \<and> sys_step registry_ok (0, Worker)
       \<lparr>executors = [], capacity = 1,
        attempts = [(Go ''X'' (Returns (Some (ErrorString ''boom''))) None)
          \<lparr>errChan := [ErrorString ''timeout''], worker := L53 7 (ErrorString ''boom''),
           watcher := WTimedOut, run_calls := 1\<rparr>]\<rparr> = None
   \<and> exec registry_ok
       [(0, WatcherTimeout), (0, WatcherSend), (0, Worker), (0, Worker), (0, Worker), (0, Worker),
        (0, CallerRecv), (0, Worker), (0, Worker), (0, Worker), (0, CallerRecv)]
       (start [7] 1 [(''X'', Returns (Some (ErrorString ''boom'')), None)])
     = Some \<lparr>executors = [7], capacity = 1,
         attempts = [(Go ''X'' (Returns (Some (ErrorString ''boom''))) None)
           \<lparr>finished := [True], worker := Returned, watcher := WTimedOut, run_calls := 1,
            received := [ErrorString ''timeout'', ErrorString ''boom'']\<rparr>]\<rparr>"
  by (simp add: step_defs)

subsection \<open>C2: without a fallback the original error passes through\<close>

text \<open>
  C2 says that \<open>tryFallback(nil, e)\<close> returns \<open>e\<close>, and that a rejection for want of
  a free executor reaches the caller when no fallback is given. In the code
  \<open>tryFallback\<close> returns \<open>nil\<close> for a \<open>nil\<close> fallback (lines 79 to 81), and line 57
  calls it without the \<open>fallback != nil\<close> test that lines 47 to 54 make for the error
  of \<open>run\<close>: with an empty pool and no fallback the worker returns and nothing was ever
  written to \<open>errChan\<close>, which is what the caller sees on success. The third equation
  is the sibling path: an error of \<open>run\<close> without fallback is written to the channel.
\<close>

theorem C2_rejection_dropped:
  "tryFallback None (errors_New ''unable to grab executor'') = Returns None
   \<and> exec registry_ok [(0, Worker), (0, Worker), (0, Worker), (0, Worker), (0, Worker)]
       (start [] 1 [(''X'', Returns None, None)])
     = Some \<lparr>executors = [], capacity = 1,
         attempts = [(Go ''X'' (Returns None) None)\<lparr>finished := [True], worker := Returned\<rparr>]\<rparr>
   \<and> exec registry_ok [(0, Worker), (0, Worker), (0, Worker), (0, Worker), (0, Worker), (0, Worker),
         (0, Worker)]
       (start [7] 1 [(''X'', Returns (Some (ErrorString ''boom'')), None)])
     = Some \<lparr>executors = [7], capacity = 1,
         attempts = [(Go ''X'' (Returns (Some (ErrorString ''boom''))) None)
           \<lparr>errChan := [ErrorString ''boom''], finished := [True], worker := Returned,
            run_calls := 1\<rparr>]\<rparr>"
  by (simp add: step_defs)

subsection \<open>C3: the token is given back on every exit path\<close>




subsection \<open>C4: the timeout error\<close>




subsection \<open>C5: the composite error of a failed fallback\<close>




subsection \<open>C6: a failed resolution\<close>

text \<open>
  C6, as amended. When \<open>GetExecutorsForCommand\<close> returns an error and no pool, \<open>run\<close>
  is never called and the fallback is never called; the worker writes the resolution
  error and nothing else: before the send of line 37 nothing was written, after it the
  resolution error, and the only other value that can be on the channel is the timeout
  error when the watcher has sent it. Left alone, the worker writes the error and
  returns in four steps.
\<close>

theorem C6_config_error:
  assumes "reg n = (False, Some e)"
    and "exec reg tr (start pool cap calls) = Some s"
    and "i < length calls" and "calls ! i = (n, r, fb)"
  shows "run_calls (attempts s ! i) = 0 \<and> fallback_calls (attempts s ! i) = []
    \<and> (if worker (attempts s ! i) = L35 \<or> worker (attempts s ! i) = L37 False e
        then channel_saw [] (attempts s ! i) else channel_saw [e] (attempts s ! i))
    \<and> exec reg [(0, Worker), (0, Worker), (0, Worker), (0, Worker)] (start pool cap [(n, r, fb)])
        = Some \<lparr>executors = pool, capacity = cap,
            attempts = [(Go n r fb)\<lparr>errChan := [e], finished := [True], worker := Returned\<rparr>]\<rparr>"
proof -
  have inv: "config_inv n e (attempts s ! i)"
    by (rule config_inv_exec[OF assms(2,3,4,1)])
  have 1: "run_calls (attempts s ! i) = 0 \<and> fallback_calls (attempts s ! i) = []"
    using inv by (simp add: config_inv_def)
  have 2: "if worker (attempts s ! i) = L35 \<or> worker (attempts s ! i) = L37 False e
        then channel_saw [] (attempts s ! i) else channel_saw [e] (attempts s ! i)"
    using inv by (cases "worker (attempts s ! i)") (auto simp: config_inv_def)
  have 3: "exec reg [(0, Worker), (0, Worker), (0, Worker), (0, Worker)] (start pool cap [(n, r, fb)])
        = Some \<lparr>executors = pool, capacity = cap,
            attempts = [(Go n r fb)\<lparr>errChan := [e], finished := [True], worker := Returned\<rparr>]\<rparr>"
    using assms(1) by (simp add: sys_step_def att_step_def worker_step_def crashed_def start_def Go_def)
  from 1 2 3 show ?thesis by blast
qed

text \<open>
  An instance, with a registry that knows no command.
\<close>

theorem C6_config_error_witness:
  "exec registry_error [(0, Worker), (0, Worker), (0, Worker), (0, Worker)]
     (start [7] 1 [(''X'', Returns None, Some fallback_ok)])
   = Some \<lparr>executors = [7], capacity = 1,
       attempts = [(Go ''X'' (Returns None) (Some fallback_ok))
         \<lparr>errChan := [ErrorString ''no such command''], finished := [True],
          worker := Returned\<rparr>]\<rparr>
   \<and> run_calls ((Go ''X'' (Returns None) (Some fallback_ok))
         \<lparr>errChan := [ErrorString ''no such command''], finished := [True],
          worker := Returned\<rparr>) = 0
   \<and> outcomes ((Go ''X'' (Returns None) (Some fallback_ok))
         \<lparr>errChan := [ErrorString ''no such command''], finished := [True],
          worker := Returned\<rparr>) = [ErrorString ''no such command'']"
proof -
  have r: "registry_error ''X'' = (False, Some (ErrorString ''no such command''))"
    by (simp add: registry_error_def)
  have ex: "exec registry_error [(0, Worker), (0, Worker), (0, Worker), (0, Worker)]
     (start [7] 1 [(''X'', Returns None, Some fallback_ok)])
   = Some \<lparr>executors = [7], capacity = 1,
       attempts = [(Go ''X'' (Returns None) (Some fallback_ok))
         \<lparr>errChan := [ErrorString ''no such command''], finished := [True],
          worker := Returned\<rparr>]\<rparr>"
    by (simp add: step_defs)
  from C6_config_error[where reg = registry_error and n = "''X''"
         and e = "ErrorString ''no such command''" and i = 0 and r = "Returns None"
         and fb = "Some fallback_ok", OF r ex] ex
  show ?thesis by (simp add: Go_def channel_saw_def)
qed

text \<open>
  The claim as stated is about every call whose resolution fails. When the registry
  returns a pool together with the error, \<open>run\<close> is called after the error was
  written.
\<close>

theorem C6_counterexample:
  "exec registry_error_with_pool [(0, Worker), (0, Worker), (0, Worker), (0, Worker)]
     (start [7] 1 [(''X'', Returns None, None)])
   = Some \<lparr>executors = [], capacity = 1,
       attempts = [(Go ''X'' (Returns None) None)
         \<lparr>errChan := [ErrorString ''no such command''], worker := L45 7, run_calls := 1\<rparr>]\<rparr>
   \<and> run_calls ((Go ''X'' (Returns None) None)
         \<lparr>errChan := [ErrorString ''no such command''], worker := L45 7, run_calls := 1\<rparr>) = 1"
  by (simp add: step_defs)

subsection \<open>C7: an error of the operation\<close>



subsection \<open>C8: success\<close>



subsection \<open>C9: an error together with a pool\<close>

text \<open>
  C9. Let \<open>GetExecutorsForCommand\<close> return an error \<open>e\<close> for the name. If it returns
  a pool as well, the worker writes \<open>e\<close>, goes on to the \<open>select\<close>, takes a token and
  calls \<open>run\<close>; and if \<open>run\<close> returns an error and the caller has taken \<open>e\<close> in the
  meantime, that error is written as a second value. If it returns no pool, \<open>run\<close> is
  never called.
\<close>

theorem C9_error_with_pool:
  assumes "reg n = (ex, Some e)"
  shows "(ex \<longrightarrow>
           exec reg [(0, Worker), (0, Worker), (0, Worker), (0, Worker)]
             (start (t # pool) cap [(n, r, fb)])
           = Some \<lparr>executors = pool, capacity = cap,
               attempts = [(Go n r fb)\<lparr>errChan := [e], worker := L45 t, run_calls := 1\<rparr>]\<rparr>
         \<and> exec reg [(0, Worker), (0, Worker), (0, Worker), (0, Worker), (0, CallerRecv),
                      (0, Worker), (0, Worker)]
             (start (t # pool) cap [(n, Returns (Some runErr), None)])
           = Some \<lparr>executors = pool, capacity = cap,
               attempts = [(Go n (Returns (Some runErr)) None)
                 \<lparr>errChan := [runErr], worker := L64 (Some t), run_calls := 1,
                  received := [e]\<rparr>]\<rparr>)
    \<and> (\<not> ex \<longrightarrow>
          (\<forall>tr pool' cap' calls s i r' fb'.
             exec reg tr (start pool' cap' calls) = Some s \<and> i < length calls
               \<and> calls ! i = (n, r', fb')
             \<longrightarrow> run_calls (attempts s ! i) = 0))"
proof (intro conjI impI allI)
  assume ex
  with assms have r: "reg n = (True, Some e)" by simp
  show "exec reg [(0, Worker), (0, Worker), (0, Worker), (0, Worker)]
             (start (t # pool) cap [(n, r, fb)])
           = Some \<lparr>executors = pool, capacity = cap,
               attempts = [(Go n r fb)\<lparr>errChan := [e], worker := L45 t, run_calls := 1\<rparr>]\<rparr>"
    using r by (simp add: sys_step_def att_step_def worker_step_def crashed_def start_def Go_def)
  show "exec reg [(0, Worker), (0, Worker), (0, Worker), (0, Worker), (0, CallerRecv),
                      (0, Worker), (0, Worker)]
             (start (t # pool) cap [(n, Returns (Some runErr), None)])
           = Some \<lparr>executors = pool, capacity = cap,
               attempts = [(Go n (Returns (Some runErr)) None)
                 \<lparr>errChan := [runErr], worker := L64 (Some t), run_calls := 1,
                  received := [e]\<rparr>]\<rparr>"
    using r by (simp add: sys_step_def att_step_def worker_step_def caller_recv_def crashed_def
        start_def Go_def)
next
  fix tr pool' cap' calls s i r' fb'
  assume "\<not> ex" and h: "exec reg tr (start pool' cap' calls) = Some s \<and> i < length calls
               \<and> calls ! i = (n, r', fb')"
  with assms have r: "reg n = (False, Some e)" by simp
  from h have "config_inv n e (attempts s ! i)"
    using config_inv_exec[where reg = reg and n = n and e = e] r by blast
  then show "run_calls (attempts s ! i) = 0" by (simp add: config_inv_def)
qed

text \<open>
  An instance of each case.
\<close>

theorem C9_error_with_pool_witness:
  "exec registry_error_with_pool
     [(0, Worker), (0, Worker), (0, Worker), (0, Worker), (0, CallerRecv), (0, Worker), (0, Worker)]
     (start [7] 1 [(''X'', Returns (Some (ErrorString ''boom'')), None)])
   = Some \<lparr>executors = [], capacity = 1,
       attempts = [(Go ''X'' (Returns (Some (ErrorString ''boom''))) None)
         \<lparr>errChan := [ErrorString ''boom''], worker := L64 (Some 7), run_calls := 1,
          received := [ErrorString ''no such command'']\<rparr>]\<rparr>
   \<and> run_calls ((Go ''X'' (Returns (Some (ErrorString ''boom''))) None)
         \<lparr>errChan := [ErrorString ''no such command''], finished := [True],
          worker := Returned\<rparr>) = 0"
proof -
  have r1: "registry_error_with_pool ''X'' = (True, Some (ErrorString ''no such command''))"
    by (simp add: registry_error_with_pool_def)
  have r2: "registry_error ''X'' = (False, Some (ErrorString ''no such command''))"
    by (simp add: registry_error_def)
  have ex: "exec registry_error [(0, Worker), (0, Worker), (0, Worker), (0, Worker)]
     (start [7] 1 [(''X'', Returns (Some (ErrorString ''boom'')), None)])
   = Some \<lparr>executors = [7], capacity = 1,
       attempts = [(Go ''X'' (Returns (Some (ErrorString ''boom''))) None)
         \<lparr>errChan := [ErrorString ''no such command''], finished := [True],
          worker := Returned\<rparr>]\<rparr>"
    by (simp add: step_defs)
  from C9_error_with_pool[where reg = registry_error_with_pool and n = "''X''" and ex = True
         and e = "ErrorString ''no such command''" and t = 7 and pool = "[]" and cap = 1
         and runErr = "ErrorString ''boom''"] r1
       C9_error_with_pool[where reg = registry_error and n = "''X''" and ex = False
         and e = "ErrorString ''no such command''"] r2 ex
  show ?thesis by (auto simp: Go_def)
qed

subsection \<open>C10: the channel \<open>finished\<close>\<close>

text \<open>
  C10, as amended. The worker sends on \<open>finished\<close> at most once, and has sent exactly
  once when it is past line 64: before that the channel is empty and the watcher has
  not returned through the case of line 69, afterwards the channel holds the one value,
  or the watcher has taken it. The send of line 64 never blocks. A watcher still in its
  \<open>select\<close> when the worker is past line 64 can take the value and return.
\<close>

theorem C10_finished_once:
  assumes "exec reg tr (start pool cap calls) = Some s" and "i < length (attempts s)"
  shows "(if past_L64 (worker (attempts s ! i))
          then (finished (attempts s ! i) = [True] \<and> watcher (attempts s ! i) \<noteq> WFinished) \<or>
               (finished (attempts s ! i) = [] \<and> watcher (attempts s ! i) = WFinished)
          else finished (attempts s ! i) = [] \<and> watcher (attempts s ! i) \<noteq> WFinished)
    \<and> (worker (attempts s ! i) = L64 held \<and> \<not> crashed s \<longrightarrow>
         sys_step reg (i, Worker) s
           = Some (s\<lparr>attempts := (attempts s)
                [i := (attempts s ! i)
                   \<lparr>finished := [True],
                    worker := (case held of Some t \<Rightarrow> L43 t False | None \<Rightarrow> Returned)\<rparr>]\<rparr>))
    \<and> (past_L64 (worker (attempts s ! i)) \<and> watcher (attempts s ! i) = W68 \<and> \<not> crashed s
         \<longrightarrow>
         sys_step reg (i, WatcherFinished) s
           = Some (s\<lparr>attempts := (attempts s)
                [i := (attempts s ! i)\<lparr>finished := [], watcher := WFinished\<rparr>]\<rparr>))"
proof -
  have f: "finished_inv (attempts s ! i)" by (rule finished_inv_exec[OF assms])
  have 1: "if past_L64 (worker (attempts s ! i))
          then (finished (attempts s ! i) = [True] \<and> watcher (attempts s ! i) \<noteq> WFinished) \<or>
               (finished (attempts s ! i) = [] \<and> watcher (attempts s ! i) = WFinished)
          else finished (attempts s ! i) = [] \<and> watcher (attempts s ! i) \<noteq> WFinished"
    using f by (simp add: finished_inv_def)
  have 2: "sys_step reg (i, Worker) s
           = Some (s\<lparr>attempts := (attempts s)
                [i := (attempts s ! i)
                   \<lparr>finished := [True],
                    worker := (case held of Some t \<Rightarrow> L43 t False | None \<Rightarrow> Returned)\<rparr>]\<rparr>)"
    if h: "worker (attempts s ! i) = L64 held \<and> \<not> crashed s"
  proof -
    from h have "\<not> past_L64 (worker (attempts s ! i))" by (simp add: past_L64_def)
    with h 1 have "att_step reg (capacity s) Worker (executors s) (attempts s ! i)
       = Some (executors s, (attempts s ! i)
                   \<lparr>finished := [True],
                    worker := (case held of Some t \<Rightarrow> L43 t False | None \<Rightarrow> Returned)\<rparr>)"
      by (simp add: att_step_def worker_step_def)
    from sys_step_attempt[OF assms(2) _ this] h show ?thesis by simp
  qed
  have 3: "sys_step reg (i, WatcherFinished) s
           = Some (s\<lparr>attempts := (attempts s)
                [i := (attempts s ! i)\<lparr>finished := [], watcher := WFinished\<rparr>]\<rparr>)"
    if h: "past_L64 (worker (attempts s ! i)) \<and> watcher (attempts s ! i) = W68 \<and> \<not> crashed s"
  proof -
    from h 1 have "finished (attempts s ! i) = [True]" by auto
    with h have "att_step reg (capacity s) WatcherFinished (executors s) (attempts s ! i)
       = Some (executors s, (attempts s ! i)\<lparr>finished := [], watcher := WFinished\<rparr>)"
      by (simp add: att_step_def watcher_finished_def)
    from sys_step_attempt[OF assms(2) _ this] h show ?thesis by simp
  qed
  from 1 2 3 show ?thesis by blast
qed

text \<open>
  An instance: the worker has returned, the watcher takes \<open>finished\<close>.
\<close>

theorem C10_finished_once_witness:
  "sys_step registry_ok (0, WatcherFinished)
      \<lparr>executors = [7], capacity = 1,
       attempts = [(Go ''X'' (Returns None) None)
         \<lparr>finished := [True], worker := Returned, run_calls := 1\<rparr>]\<rparr>
   = Some \<lparr>executors = [7], capacity = 1,
       attempts = [(Go ''X'' (Returns None) None)
         \<lparr>worker := Returned, watcher := WFinished, run_calls := 1\<rparr>]\<rparr>"
proof -
  have ex: "exec registry_ok
      [(0, Worker), (0, Worker), (0, Worker), (0, Worker), (0, Worker), (0, Worker)]
      (start [7] 1 [(''X'', Returns None, None)])
    = Some \<lparr>executors = [7], capacity = 1,
       attempts = [(Go ''X'' (Returns None) None)
         \<lparr>finished := [True], worker := Returned, run_calls := 1\<rparr>]\<rparr>"
    by (simp add: step_defs)
  from C10_finished_once[OF ex, of 0] show ?thesis
    by (simp add: crashed_def Go_def past_L64_def)
qed

text \<open>
  The claim as stated has the watcher terminate whenever the operation and the fallback
  do. Here \<open>run\<close> has returned an error, the worker has written it and returned, and
  the watcher, having taken the timer case, stands before its own send with the channel
  full: it can neither send nor go back to \<open>finished\<close>.
\<close>

theorem C10_counterexample:
  "exec registry_ok
     [(0, Worker), (0, Worker), (0, Worker), (0, Worker), (0, Worker), (0, WatcherTimeout),
      (0, Worker), (0, Worker)]
     (start [7] 1 [(''X'', Returns (Some (ErrorString ''boom'')), None)])
   = Some \<lparr>executors = [7], capacity = 1,
       attempts = [(Go ''X'' (Returns (Some (ErrorString ''boom''))) None)
         \<lparr>errChan := [ErrorString ''boom''], finished := [True], worker := Returned,
          watcher := W71, run_calls := 1\<rparr>]\<rparr>
   \<and> sys_step registry_ok (0, WatcherSend)
       \<lparr>executors = [7], capacity = 1,
        attempts = [(Go ''X'' (Returns (Some (ErrorString ''boom''))) None)
          \<lparr>errChan := [ErrorString ''boom''], finished := [True], worker := Returned,
           watcher := W71, run_calls := 1\<rparr>]\<rparr> = None
   \<and> sys_step registry_ok (0, WatcherFinished)
       \<lparr>executors = [7], capacity = 1,
        attempts = [(Go ''X'' (Returns (Some (ErrorString ''boom''))) None)
          \<lparr>errChan := [ErrorString ''boom''], finished := [True], worker := Returned,
           watcher := W71, run_calls := 1\<rparr>]\<rparr> = None"
  by (simp add: step_defs)

end
